theory Spec2Isabelle
  imports Main "HOL-Library.Word" "HOL-Library.Signed_Division" "HOL-Library.Multiset"
begin

section \<open>Data model\<close>

text \<open>
  Modelled from the spec: \<^verbatim>\<open>struct record\<close> is declared in \<^verbatim>\<open>record.h\<close>, which is not
  among the sources. The specification's Record has a 64-bit signed identifier, a
  longitude, a latitude and a display name; the sources read the fields \<^verbatim>\<open>osm_id\<close>
  (assigned to an \<^verbatim>\<open>int64_t\<close>), \<^verbatim>\<open>lon\<close> and \<^verbatim>\<open>lat\<close> (used as \<^verbatim>\<open>double\<close>) and never look at
  the name. The identifier is a 64-bit word read as two's complement. The coordinate type
  is a parameter \<open>'a\<close>: the scanner only subtracts, multiplies, adds and compares
  coordinates, and nothing is assumed about the three arithmetic operations, so that any
  rounding is covered.
\<close>

record 'a record_t =
  osm_id :: "64 word"
  lon :: 'a
  lat :: 'a
  name :: string

text \<open>
  The record array \<^verbatim>\<open>rs\<close> is a list. A \<^verbatim>\<open>const struct record *\<close> pointing into it is the
  position of the record in the array, and \<^verbatim>\<open>NULL\<close> is \<open>None\<close>.
\<close>

type_synonym record_ptr = "nat option"

text \<open>\<^verbatim>\<open>struct index_record { int64_t osm_id; const struct record *record; }\<close>\<close>

record index_record =
  ir_osm_id :: "64 word"
  ir_record :: nat

text \<open>
  \<^verbatim>\<open>struct indexed_data { struct index_record *irs; int n; }\<close>. The handle also remembers
  the two heap blocks it lives in: the block of the struct itself and the block of the
  entry array.
\<close>

record indexed_data =
  idx_addr :: nat
  irs_addr :: nat
  idx_irs :: "index_record list"
  idx_n :: int

text \<open>
  Undefined behaviour of the C program is a value of the model: a signed \<^verbatim>\<open>int\<close>
  computation that leaves the range of \<^verbatim>\<open>int\<close> (32 bits wide), and an array access
  outside the array. The \<^verbatim>\<open>int\<close> variables are mathematical integers, and every
  computation on them that could leave the range is checked.
\<close>

datatype fault = SignedOverflow | OutOfBounds

definition INT_MAX :: int where
  "INT_MAX = 2147483647"

definition INT_MIN :: int where
  "INT_MIN = - 2147483648"

definition int_ok :: "int \<Rightarrow> bool" where
  "int_ok v \<longleftrightarrow> INT_MIN \<le> v \<and> v \<le> INT_MAX"

section \<open>Sorted Index: lookup\<close>

text \<open>
  One iteration of the \<^verbatim>\<open>while (left <= right)\<close> loop of \<^verbatim>\<open>lookup_indexed\<close>: either the
  function returns, or the loop goes on with new bounds. The division is C's, truncating
  towards zero.
\<close>

datatype loop_ctl = Return "fault + record_ptr" | Continue int int

definition lookup_indexed_body :: "index_record list \<Rightarrow> 64 word \<Rightarrow> int \<Rightarrow> int \<Rightarrow> loop_ctl" where
  "lookup_indexed_body es needle left right =
     (if \<not> int_ok (right - left) then Return (Inl SignedOverflow)
      else
        let mid = left + (right - left) sdiv 2 in
        if \<not> int_ok mid then Return (Inl SignedOverflow)
        else if mid < 0 \<or> int (length es) \<le> mid then Return (Inl OutOfBounds)
        else if ir_osm_id (es ! nat mid) = needle then
          Return (Inr (Some (ir_record (es ! nat mid))))
        else if ir_osm_id (es ! nat mid) <s needle then
          (if int_ok (mid + 1) then Continue (mid + 1) right
           else Return (Inl SignedOverflow))
        else
          (if int_ok (mid - 1) then Continue left (mid - 1)
           else Return (Inl SignedOverflow)))"

lemma sdiv_2_bounds:
  fixes d :: int
  assumes "0 \<le> d"
  shows "0 \<le> d sdiv 2" and "d sdiv 2 \<le> d" and "d sdiv 2 = d div 2"
proof -
  show eq: "d sdiv 2 = d div 2"
    using assms by (cases "d = 0") (simp_all add: signed_divide_int_def)
  show "0 \<le> d sdiv 2" using assms unfolding eq by simp
  show "d sdiv 2 \<le> d" using assms unfolding eq by simp
qed

lemma lookup_indexed_body_Continue:
  assumes "left \<le> right"
    and "lookup_indexed_body es needle left right = Continue left' right'"
  shows "(left' = left + (right - left) sdiv 2 + 1 \<and> right' = right) \<or>
         (left' = left \<and> right' = left + (right - left) sdiv 2 - 1)"
  using assms(2)
  by (auto simp add: lookup_indexed_body_def Let_def split: if_splits)

lemma lookup_indexed_body_shrinks:
  assumes "left \<le> right"
    and "lookup_indexed_body es needle left right = Continue left' right'"
  shows "right' - left' < right - left"
proof -
  have "0 \<le> right - left" using assms(1) by simp
  from sdiv_2_bounds(1,2) [OF this] lookup_indexed_body_Continue [OF assms]
  show ?thesis by auto
qed

function lookup_indexed_loop ::
  "index_record list \<Rightarrow> 64 word \<Rightarrow> int \<Rightarrow> int \<Rightarrow> fault + record_ptr" where
  "lookup_indexed_loop es needle left right =
     (if left \<le> right then
        (case lookup_indexed_body es needle left right of
           Return r \<Rightarrow> r
         | Continue left' right' \<Rightarrow> lookup_indexed_loop es needle left' right')
      else Inr None)"
  by pat_completeness auto
termination
proof (relation "measure (\<lambda>(es, needle, left, right). nat (right - left + 1))")
  show "wf (measure (\<lambda>(es, needle, left, right). nat (right - left + 1)))"
    by simp
next
  fix es :: "index_record list" and needle :: "64 word" and left right left' right' :: int
  assume "left \<le> right"
    and "lookup_indexed_body es needle left right = Continue left' right'"
  then have "right' - left' < right - left"
    by (rule lookup_indexed_body_shrinks)
  with \<open>left \<le> right\<close>
  show "((es, needle, left', right'), (es, needle, left, right))
          \<in> measure (\<lambda>(es, needle, left, right). nat (right - left + 1))"
    by simp
qed

declare lookup_indexed_loop.simps [simp del]

definition lookup_indexed :: "indexed_data \<Rightarrow> 64 word \<Rightarrow> fault + record_ptr" where
  "lookup_indexed data needle =
     (if \<not> int_ok (idx_n data - 1) then Inl SignedOverflow
      else lookup_indexed_loop (idx_irs data) needle 0 (idx_n data - 1))"

text \<open>
  The same loop with an explicit bound on the number of iterations: \<open>None\<close> means that
  the bound was used up before the loop left.
\<close>

fun lookup_indexed_fuel ::
  "nat \<Rightarrow> index_record list \<Rightarrow> 64 word \<Rightarrow> int \<Rightarrow> int \<Rightarrow> (fault + record_ptr) option" where
  "lookup_indexed_fuel 0 es needle left right = None"
| "lookup_indexed_fuel (Suc fuel) es needle left right =
     (if left \<le> right then
        (case lookup_indexed_body es needle left right of
           Return r \<Rightarrow> Some r
         | Continue left' right' \<Rightarrow> lookup_indexed_fuel fuel es needle left' right')
      else Some (Inr None))"

definition lookup_indexed_within ::
  "nat \<Rightarrow> indexed_data \<Rightarrow> 64 word \<Rightarrow> (fault + record_ptr) option" where
  "lookup_indexed_within fuel data needle =
     (if \<not> int_ok (idx_n data - 1) then Some (Inl SignedOverflow)
      else lookup_indexed_fuel fuel (idx_irs data) needle 0 (idx_n data - 1))"

text \<open>
  The binary search as the specification words it, on unbounded integers and with no
  check at all: a closed range \<open>[low, high]\<close>, the midpoint \<open>low + (high - low) / 2\<close>,
  an immediate return on a hit, \<open>low = mid + 1\<close> when the entry is less than the target,
  \<open>high = mid - 1\<close> otherwise, and "not found" when \<open>low > high\<close>.
\<close>

function spec_binary_search ::
  "index_record list \<Rightarrow> 64 word \<Rightarrow> int \<Rightarrow> int \<Rightarrow> record_ptr" where
  "spec_binary_search es target low high =
     (if low > high then None
      else
        let mid = low + (high - low) div 2 in
        if ir_osm_id (es ! nat mid) = target then Some (ir_record (es ! nat mid))
        else if sint (ir_osm_id (es ! nat mid)) < sint target then
          spec_binary_search es target (mid + 1) high
        else spec_binary_search es target low (mid - 1))"
  by pat_completeness auto
termination
  by (relation "measure (\<lambda>(es, target, low, high). nat (high - low + 1))") auto

declare spec_binary_search.simps [simp del]

section \<open>The allocator\<close>

text \<open>
  \<^verbatim>\<open>malloc\<close> and \<^verbatim>\<open>free\<close> belong to the C library. The heap is the list of the live
  blocks' addresses. Whether a request succeeds is not decided by the program: it is an
  input of the model. A successful \<^verbatim>\<open>malloc\<close> returns the address of a block that was
  not live; a failed one returns \<^verbatim>\<open>NULL\<close> and leaves the heap as it was. \<^verbatim>\<open>free\<close> is
  only ever called on a block that is live.
\<close>

type_synonym heap = "nat list"

definition fresh :: "heap \<Rightarrow> nat" where
  "fresh h = Suc (fold max h 0)"

definition malloc :: "bool \<Rightarrow> heap \<Rightarrow> nat option \<times> heap" where
  "malloc ok h = (if ok then (Some (fresh h), fresh h # h) else (None, h))"

definition free :: "nat \<Rightarrow> heap \<Rightarrow> heap" where
  "free p h = removeAll p h"

section \<open>Sorted Index: build\<close>

definition compare_index_records :: "index_record \<Rightarrow> index_record \<Rightarrow> int" where
  "compare_index_records ia ib =
     (if ir_osm_id ia <s ir_osm_id ib then - 1
      else if ir_osm_id ib <s ir_osm_id ia then 1
      else 0)"

text \<open>
  \<^verbatim>\<open>qsort\<close> belongs to the C library as well, and is a parameter of the build. All that
  is known of it is its contract: the array afterwards holds the same elements, in an
  order in which no element compares greater than a later one. The order among elements
  that compare equal is left open.
\<close>

type_synonym qsort_fn =
  "index_record list \<Rightarrow> (index_record \<Rightarrow> index_record \<Rightarrow> int) \<Rightarrow> index_record list"

definition qsort_contract ::
  "qsort_fn \<Rightarrow> (index_record \<Rightarrow> index_record \<Rightarrow> int) \<Rightarrow> index_record list \<Rightarrow> bool" where
  "qsort_contract qsort compar es \<longleftrightarrow>
     mset (qsort es compar) = mset es \<and>
     sorted_wrt (\<lambda>a b. compar a b \<le> 0) (qsort es compar)"

text \<open>One sorting function that meets the contract, to run the build on examples.\<close>

fun insert_by :: "(index_record \<Rightarrow> index_record \<Rightarrow> int) \<Rightarrow> index_record \<Rightarrow>
    index_record list \<Rightarrow> index_record list" where
  "insert_by compar x [] = [x]"
| "insert_by compar x (y # ys) =
     (if compar x y \<le> 0 then x # y # ys else y # insert_by compar x ys)"

definition insertion_qsort :: qsort_fn where
  "insertion_qsort es compar = foldr (insert_by compar) es []"

text \<open>
  The loop \<^verbatim>\<open>for (int i = 0; i < n; i++)\<close> of \<^verbatim>\<open>mk_indexed\<close>; \<open>acc\<close> is
  \<^verbatim>\<open>data->irs[0..i-1]\<close>. Reading \<^verbatim>\<open>rs[i]\<close> outside the record array is a fault. The
  increment cannot overflow: \<open>i < n\<close> and \<open>n\<close> is an \<^verbatim>\<open>int\<close>.
\<close>

function mk_indexed_loop ::
  "'a record_t list \<Rightarrow> int \<Rightarrow> int \<Rightarrow> index_record list \<Rightarrow> fault + index_record list" where
  "mk_indexed_loop rs n i acc =
     (if i < n then
        (if i < 0 \<or> int (length rs) \<le> i then Inl OutOfBounds
         else mk_indexed_loop rs n (i + 1)
                (acc @ [\<lparr>ir_osm_id = osm_id (rs ! nat i), ir_record = nat i\<rparr>]))
      else Inr acc)"
  by pat_completeness auto
termination
  by (relation "measure (\<lambda>(rs, n, i, acc). nat (n - i))") auto

declare mk_indexed_loop.simps [simp del]

text \<open>The entry array when the loop has run over all of \<open>rs\<close>: one entry per record, in store order.\<close>

definition index_entries :: "'a record_t list \<Rightarrow> index_record list" where
  "index_entries rs =
     map (\<lambda>i. \<lparr>ir_osm_id = osm_id (rs ! i), ir_record = i\<rparr>) [0..<length rs]"

text \<open>
  \<^verbatim>\<open>mk_indexed\<close>. The pair \<open>oks\<close> says whether the first and the second \<^verbatim>\<open>malloc\<close>
  succeed. With a negative \<open>n\<close> the loop writes nothing and \<^verbatim>\<open>qsort\<close> is asked to sort
  \<^verbatim>\<open>(size_t)n\<close> elements, far beyond the block: a fault.
\<close>

definition mk_indexed ::
  "qsort_fn \<Rightarrow> bool \<times> bool \<Rightarrow> heap \<Rightarrow> 'a record_t list \<Rightarrow> int \<Rightarrow>
     fault + (indexed_data option \<times> heap)" where
  "mk_indexed qsort oks h rs n =
     (case malloc (fst oks) h of
        (None, h1) \<Rightarrow> Inr (None, h1)
      | (Some data, h1) \<Rightarrow>
          (case malloc (snd oks) h1 of
             (None, h2) \<Rightarrow> Inr (None, free data h2)
           | (Some irs, h2) \<Rightarrow>
               (case mk_indexed_loop rs n 0 [] of
                  Inl f \<Rightarrow> Inl f
                | Inr es \<Rightarrow>
                    if n < 0 then Inl OutOfBounds
                    else Inr (Some \<lparr>idx_addr = data, irs_addr = irs,
                                     idx_irs = qsort es compare_index_records,
                                     idx_n = n\<rparr>, h2))))"

definition free_indexed :: "indexed_data \<Rightarrow> heap \<Rightarrow> heap" where
  "free_indexed data h = free (idx_addr data) (free (irs_addr data) h)"

text \<open>
  The calls a driver makes on a built handle, and the handle after each of them.
  \<^verbatim>\<open>lookup_indexed\<close> has no assignment through \<^verbatim>\<open>data\<close>: the struct and the entry array
  are as before. \<^verbatim>\<open>free_indexed\<close> ends the handle's life.
\<close>

datatype call = Lookup "64 word" | Free

fun after_call :: "indexed_data option \<Rightarrow> call \<Rightarrow> indexed_data option" where
  "after_call (Some data) (Lookup needle) = Some data"
| "after_call (Some data) Free = None"
| "after_call None c = None"

section \<open>Coordinate Scanner\<close>

text \<open>\<^verbatim>\<open>struct naive_data { struct record *rs; int n; }\<close>, with the block it lives in.\<close>

record 'a naive_data =
  nv_addr :: nat
  nv_rs :: "'a record_t list"
  nv_n :: int


definition free_naive :: "'a naive_data \<Rightarrow> heap \<Rightarrow> heap" where
  "free_naive data h = free (nv_addr data) h"

text \<open>
  The loop \<^verbatim>\<open>for (int i = 1; i < data->n; i++)\<close> of \<^verbatim>\<open>lookup_naive\<close>, with the running
  \<^verbatim>\<open>closest\<close> and \<^verbatim>\<open>min_dist_sq\<close>. The comparison is the strict \<open><\<close>.
\<close>

function lookup_naive_loop ::
  "'a::{plus,minus,times,ord} record_t list \<Rightarrow> int \<Rightarrow> 'a \<Rightarrow> 'a \<Rightarrow> int \<Rightarrow> nat \<Rightarrow> 'a \<Rightarrow>
     fault + record_ptr" where
  "lookup_naive_loop rs n qlon qlat i closest min_dist_sq =
     (if i < n then
        (if i < 0 \<or> int (length rs) \<le> i then Inl OutOfBounds
         else
           let dx = lon (rs ! nat i) - qlon;
               dy = lat (rs ! nat i) - qlat;
               dist_sq = dx * dx + dy * dy
           in if dist_sq < min_dist_sq
              then lookup_naive_loop rs n qlon qlat (i + 1) (nat i) dist_sq
              else lookup_naive_loop rs n qlon qlat (i + 1) closest min_dist_sq)
      else Inr (Some closest))"
  by pat_completeness auto
termination
  by (relation "measure (\<lambda>(rs, n, qlon, qlat, i, closest, m). nat (n - i))") auto

declare lookup_naive_loop.simps [simp del]

definition lookup_naive ::
  "'a::{plus,minus,times,ord} naive_data \<Rightarrow> 'a \<Rightarrow> 'a \<Rightarrow> fault + record_ptr" where
  "lookup_naive data qlon qlat =
     (if nv_n data = 0 then Inr None
      else if nv_rs data = [] then Inl OutOfBounds
      else
        let min_dist_sq = (lon (nv_rs data ! 0) - qlon) * (lon (nv_rs data ! 0) - qlon) +
                          (lat (nv_rs data ! 0) - qlat) * (lat (nv_rs data ! 0) - qlat)
        in lookup_naive_loop (nv_rs data) (nv_n data) qlon qlat 1 0 min_dist_sq)"

text \<open>The squared planar distance of record \<open>j\<close> to the query point, as the loop computes it.\<close>

definition dist_sq_of :: "'a::{plus,minus,times} record_t list \<Rightarrow> 'a \<Rightarrow> 'a \<Rightarrow> nat \<Rightarrow> 'a" where
  "dist_sq_of rs qlon qlat j =
     (lon (rs ! j) - qlon) * (lon (rs ! j) - qlon) + (lat (rs ! j) - qlat) * (lat (rs ! j) - qlat)"

section \<open>Linear Scanner and Compact Index\<close>

text \<open>
  Modelled from the spec: the sources of the Linear Scanner (\<^verbatim>\<open>id_query_naive.c\<close>) are
  not at hand. Its build stores a reference to the record sequence and can fail only on
  the allocation of the handle; its lookup scans the records in sequence order and
  returns a reference to the first record whose identifier equals the query, and "not
  found" when the sequence is empty or used up without a match.
\<close>

record 'a linear_scanner =
  ls_addr :: nat
  ls_rs :: "'a record_t list"

text \<open>
  Modelled from the spec: "\<^verbatim>\<open>build\<close> stores a reference to the record sequence and its
  length; no copying, cannot fail except on allocation of the handle itself".
\<close>

definition build_linear_scanner ::
  "bool \<Rightarrow> heap \<Rightarrow> 'a record_t list \<Rightarrow> 'a linear_scanner option \<times> heap" where
  "build_linear_scanner ok h rs =
     (case malloc ok h of
        (None, h1) \<Rightarrow> (None, h1)
      | (Some data, h1) \<Rightarrow> (Some \<lparr>ls_addr = data, ls_rs = rs\<rparr>, h1))"

text \<open>
  Modelled from the spec: "\<^verbatim>\<open>lookup\<close> scans records in sequence order, returns a reference
  to the first record whose identifier equals the query; returns not found if the sequence
  is empty or exhausted without a match". \<open>i\<close> is the position of the head of the list in
  the record array.
\<close>

fun scan_records :: "'a record_t list \<Rightarrow> 64 word \<Rightarrow> nat \<Rightarrow> record_ptr" where
  "scan_records [] needle i = None"
| "scan_records (r # rs) needle i =
     (if osm_id r = needle then Some i else scan_records rs needle (Suc i))"

text \<open>Modelled from the spec: the Linear Scanner's \<^verbatim>\<open>lookup\<close>, the scan from the first record.\<close>

definition lookup_linear_scanner :: "'a linear_scanner \<Rightarrow> 64 word \<Rightarrow> record_ptr" where
  "lookup_linear_scanner data needle = scan_records (ls_rs data) needle 0"

text \<open>
  Modelled from the spec: the sources of the Compact Index (\<^verbatim>\<open>id_query_indexed.c\<close>) are
  not at hand. Its build allocates one Index Entry per record, holding the record's
  identifier and a reference to the record, in store order and unsorted; when the entry
  array cannot be allocated the handle is released and the build fails. Its lookup scans
  the entries in order and returns the record reference of the first entry whose
  identifier equals the query.
\<close>

record compact_index =
  ci_addr :: nat
  ci_entries_addr :: nat
  ci_entries :: "index_record list"

text \<open>
  Modelled from the spec: "\<^verbatim>\<open>build\<close> allocates one Index Entry per record, populated with
  each record's identifier and a reference to that record, in store order. No sorting";
  it "fails with an allocation error if the auxiliary array cannot be allocated -- the
  partially constructed handle must be fully released".
\<close>

definition build_compact_index ::
  "bool \<times> bool \<Rightarrow> heap \<Rightarrow> 'a record_t list \<Rightarrow> compact_index option \<times> heap" where
  "build_compact_index oks h rs =
     (case malloc (fst oks) h of
        (None, h1) \<Rightarrow> (None, h1)
      | (Some data, h1) \<Rightarrow>
          (case malloc (snd oks) h1 of
             (None, h2) \<Rightarrow> (None, free data h2)
           | (Some entries, h2) \<Rightarrow>
               (Some \<lparr>ci_addr = data, ci_entries_addr = entries,
                       ci_entries = map (\<lambda>i. \<lparr>ir_osm_id = osm_id (rs ! i), ir_record = i\<rparr>)
                                      [0..<length rs]\<rparr>, h2)))"

text \<open>
  Modelled from the spec: "\<^verbatim>\<open>lookup\<close> scans the Index Entry array in order comparing
  identifiers; on match, dereferences the associated record reference and returns it".
\<close>

fun scan_entries :: "index_record list \<Rightarrow> 64 word \<Rightarrow> record_ptr" where
  "scan_entries [] needle = None"
| "scan_entries (e # es) needle =
     (if ir_osm_id e = needle then Some (ir_record e) else scan_entries es needle)"

text \<open>Modelled from the spec: the Compact Index's \<^verbatim>\<open>lookup\<close>, the scan of its entry array.\<close>

definition lookup_compact_index :: "compact_index \<Rightarrow> 64 word \<Rightarrow> record_ptr" where
  "lookup_compact_index data needle = scan_entries (ci_entries data) needle"

section \<open>Examples\<close>

text \<open>
  Three records in store order, with identifiers 1337, 45 and -7, and the index built
  over them.
\<close>

definition ex_records :: "int record_t list" where
  "ex_records =
     [\<lparr>osm_id = 1337, lon = 10, lat = 56, name = ''Main Street''\<rparr>,
      \<lparr>osm_id = 45, lon = 12, lat = 55, name = ''Douglas Road''\<rparr>,
      \<lparr>osm_id = - 7, lon = 10, lat = 54, name = ''Aarhus''\<rparr>]"

definition ex_entries :: "index_record list" where
  "ex_entries =
     [\<lparr>ir_osm_id = - 7, ir_record = 2\<rparr>, \<lparr>ir_osm_id = 45, ir_record = 1\<rparr>,
      \<lparr>ir_osm_id = 1337, ir_record = 0\<rparr>]"

definition ex_index :: indexed_data where
  "ex_index = \<lparr>idx_addr = 1, irs_addr = 2, idx_irs = ex_entries, idx_n = 3\<rparr>"

text \<open>Coordinate Scanner handles over the same records, and over no record at all.\<close>

definition ex_naive :: "int naive_data" where
  "ex_naive = \<lparr>nv_addr = 1, nv_rs = ex_records, nv_n = 3\<rparr>"

definition ex_naive_empty :: "int naive_data" where
  "ex_naive_empty = \<lparr>nv_addr = 1, nv_rs = [], nv_n = 0\<rparr>"

text \<open>Records with a repeated identifier, and Linear Scanner handles.\<close>

definition ex_dup_records :: "int record_t list" where
  "ex_dup_records =
     [\<lparr>osm_id = 45, lon = 12, lat = 55, name = ''Douglas Road''\<rparr>,
      \<lparr>osm_id = 1337, lon = 10, lat = 56, name = ''Main Street''\<rparr>,
      \<lparr>osm_id = 45, lon = 10, lat = 54, name = ''Douglas Road''\<rparr>]"

definition ex_linear :: "int linear_scanner" where
  "ex_linear = \<lparr>ls_addr = 1, ls_rs = ex_dup_records\<rparr>"

definition ex_linear_empty :: "int linear_scanner" where
  "ex_linear_empty = \<lparr>ls_addr = 1, ls_rs = []\<rparr>"

text \<open>The Linear Scanner and the Compact Index over the three records of above.\<close>

definition ex_scanner :: "int linear_scanner" where
  "ex_scanner = \<lparr>ls_addr = 1, ls_rs = ex_records\<rparr>"

definition ex_compact :: compact_index where
  "ex_compact = \<lparr>ci_addr = 1, ci_entries_addr = 2,
     ci_entries = [\<lparr>ir_osm_id = 1337, ir_record = 0\<rparr>, \<lparr>ir_osm_id = 45, ir_record = 1\<rparr>,
                   \<lparr>ir_osm_id = - 7, ir_record = 2\<rparr>]\<rparr>"

section \<open>The binary search loop\<close>

lemma lookup_indexed_fuel_enough:
  "nat (right - left + 1) < fuel \<Longrightarrow>
   lookup_indexed_fuel fuel es needle left right = Some (lookup_indexed_loop es needle left right)"
proof (induction es needle left right arbitrary: fuel rule: lookup_indexed_loop.induct)
  case (1 es needle left right)
  from "1.prems" obtain f where fuel: "fuel = Suc f" by (cases fuel) auto
  show ?case
  proof (cases "left \<le> right")
    case False
    then show ?thesis by (simp add: fuel lookup_indexed_loop.simps [of es needle left right])
  next
    case True
    show ?thesis
    proof (cases "lookup_indexed_body es needle left right")
      case (Return r)
      with True show ?thesis by (simp add: fuel lookup_indexed_loop.simps [of es needle left right])
    next
      case (Continue l' r')
      from lookup_indexed_body_shrinks [OF True Continue] True "1.prems"
      have "nat (r' - l' + 1) < f" by (simp add: fuel)
      from "1.IH" [OF True Continue this] True Continue
      show ?thesis by (simp add: fuel lookup_indexed_loop.simps [of es needle left right])
    qed
  qed
qed

lemma lookup_indexed_body_in_range:
  assumes "0 \<le> left" "left \<le> right" "right < int (length es)" "int (length es) \<le> INT_MAX"
  defines "mid \<equiv> left + (right - left) div 2"
  shows "lookup_indexed_body es needle left right =
           (if ir_osm_id (es ! nat mid) = needle then Return (Inr (Some (ir_record (es ! nat mid))))
            else if ir_osm_id (es ! nat mid) <s needle then Continue (mid + 1) right
            else Continue left (mid - 1))"
    and "left \<le> mid" and "mid \<le> right"
proof -
  have d: "0 \<le> right - left" using assms by simp
  have eq: "(right - left) sdiv 2 = (right - left) div 2" by (rule sdiv_2_bounds(3) [OF d])
  show lo: "left \<le> mid" and hi: "mid \<le> right" using d by (simp_all add: mid_def)
  have "int_ok (right - left)" "int_ok mid" "int_ok (mid + 1)" "int_ok (mid - 1)"
    using assms(1-4) lo hi by (simp_all add: int_ok_def INT_MAX_def INT_MIN_def)
  moreover have "\<not> (mid < 0 \<or> int (length es) \<le> mid)" using assms(1-4) lo hi by simp
  ultimately show "lookup_indexed_body es needle left right =
           (if ir_osm_id (es ! nat mid) = needle then Return (Inr (Some (ir_record (es ! nat mid))))
            else if ir_osm_id (es ! nat mid) <s needle then Continue (mid + 1) right
            else Continue left (mid - 1))"
    unfolding lookup_indexed_body_def eq mid_def [symmetric] by (simp add: Let_def)
qed

lemma lookup_indexed_loop_refines:
  "0 \<le> left \<Longrightarrow> right < int (length es) \<Longrightarrow> int (length es) \<le> INT_MAX \<Longrightarrow>
   lookup_indexed_loop es needle left right = Inr (spec_binary_search es needle left right)"
proof (induction es needle left right rule: lookup_indexed_loop.induct)
  case (1 es needle left right)
  show ?case
  proof (cases "left \<le> right")
    case False
    then show ?thesis
      by (simp add: lookup_indexed_loop.simps [of es needle left right]
          spec_binary_search.simps [of es needle left right])
  next
    case True
    define mid where "mid = left + (right - left) div 2"
    note body = lookup_indexed_body_in_range [OF "1.prems"(1) True "1.prems"(2,3), folded mid_def]
    consider (hit) "ir_osm_id (es ! nat mid) = needle"
      | (less) "ir_osm_id (es ! nat mid) \<noteq> needle" "ir_osm_id (es ! nat mid) <s needle"
      | (greater) "ir_osm_id (es ! nat mid) \<noteq> needle" "\<not> ir_osm_id (es ! nat mid) <s needle"
      by blast
    then show ?thesis
    proof cases
      case hit
      with True body(1) [of needle] show ?thesis
        by (simp add: lookup_indexed_loop.simps [of es needle left right]
            spec_binary_search.simps [of es needle left right] mid_def Let_def)
    next
      case less
      with body(1) [of needle] have b: "lookup_indexed_body es needle left right = Continue (mid + 1) right"
        by simp
      have "lookup_indexed_loop es needle (mid + 1) right = Inr (spec_binary_search es needle (mid + 1) right)"
        using "1.IH" [OF True b] "1.prems" body(2) by simp
      with True b less show ?thesis
        by (simp add: lookup_indexed_loop.simps [of es needle left right]
            spec_binary_search.simps [of es needle left right] mid_def [symmetric] Let_def word_sless_alt)
    next
      case greater
      with body(1) [of needle] have b: "lookup_indexed_body es needle left right = Continue left (mid - 1)"
        by simp
      have "lookup_indexed_loop es needle left (mid - 1) = Inr (spec_binary_search es needle left (mid - 1))"
        using "1.IH" [OF True b] "1.prems" body(3) by simp
      with True b greater show ?thesis
        by (simp add: lookup_indexed_loop.simps [of es needle left right]
            spec_binary_search.simps [of es needle left right] mid_def [symmetric] Let_def word_sless_alt)
    qed
  qed
qed

lemma lookup_indexed_loop_found:
  "0 \<le> left \<Longrightarrow> right < int (length es) \<Longrightarrow> int (length es) \<le> INT_MAX \<Longrightarrow>
   lookup_indexed_loop es needle left right = Inr (Some p) \<Longrightarrow>
   \<exists>m. left \<le> m \<and> m \<le> right \<and> ir_osm_id (es ! nat m) = needle \<and> p = ir_record (es ! nat m)"
proof (induction es needle left right rule: lookup_indexed_loop.induct)
  case (1 es needle left right)
  show ?case
  proof (cases "left \<le> right")
    case False
    with "1.prems"(4) show ?thesis
      by (simp add: lookup_indexed_loop.simps [of es needle left right])
  next
    case True
    define mid where "mid = left + (right - left) div 2"
    note body = lookup_indexed_body_in_range [OF "1.prems"(1) True "1.prems"(2,3), folded mid_def]
    consider (hit) "ir_osm_id (es ! nat mid) = needle"
      | (less) "ir_osm_id (es ! nat mid) \<noteq> needle" "ir_osm_id (es ! nat mid) <s needle"
      | (greater) "ir_osm_id (es ! nat mid) \<noteq> needle" "\<not> ir_osm_id (es ! nat mid) <s needle"
      by blast
    then show ?thesis
    proof cases
      case hit
      with True body(1) [of needle] "1.prems"(4) have "p = ir_record (es ! nat mid)"
        by (simp add: lookup_indexed_loop.simps [of es needle left right])
      with hit body(2,3) show ?thesis by blast
    next
      case less
      with body(1) [of needle] have b: "lookup_indexed_body es needle left right = Continue (mid + 1) right"
        by simp
      with True "1.prems"(4) have "lookup_indexed_loop es needle (mid + 1) right = Inr (Some p)"
        by (simp add: lookup_indexed_loop.simps [of es needle left right])
      from "1.IH" [OF True b _ "1.prems"(2,3) this] "1.prems"(1) body(2)
      obtain m where "mid + 1 \<le> m" "m \<le> right" "ir_osm_id (es ! nat m) = needle"
        "p = ir_record (es ! nat m)" by auto
      with body(2) show ?thesis by (intro exI [of _ m]) simp
    next
      case greater
      with body(1) [of needle] have b: "lookup_indexed_body es needle left right = Continue left (mid - 1)"
        by simp
      with True "1.prems"(4) have "lookup_indexed_loop es needle left (mid - 1) = Inr (Some p)"
        by (simp add: lookup_indexed_loop.simps [of es needle left right])
      from "1.IH" [OF True b "1.prems"(1) _ "1.prems"(3) this] "1.prems"(2) body(3)
      obtain m where "left \<le> m" "m \<le> mid - 1" "ir_osm_id (es ! nat m) = needle"
        "p = ir_record (es ! nat m)" by auto
      with body(3) show ?thesis by (intro exI [of _ m]) simp
    qed
  qed
qed

lemma sorted_keys_nth:
  assumes "sorted (map (\<lambda>e. sint (ir_osm_id e)) es)" "0 \<le> a" "a \<le> b" "b < int (length es)"
  shows "sint (ir_osm_id (es ! nat a)) \<le> sint (ir_osm_id (es ! nat b))"
proof -
  have "map (\<lambda>e. sint (ir_osm_id e)) es ! nat a \<le> map (\<lambda>e. sint (ir_osm_id e)) es ! nat b"
    using assms by (intro sorted_nth_mono) auto
  then show ?thesis using assms by simp
qed

lemma lookup_indexed_loop_not_found:
  "sorted (map (\<lambda>e. sint (ir_osm_id e)) es) \<Longrightarrow>
   0 \<le> left \<Longrightarrow> right < int (length es) \<Longrightarrow> int (length es) \<le> INT_MAX \<Longrightarrow>
   lookup_indexed_loop es needle left right = Inr None \<Longrightarrow>
   left \<le> m \<Longrightarrow> m \<le> right \<Longrightarrow> ir_osm_id (es ! nat m) \<noteq> needle"
proof (induction es needle left right rule: lookup_indexed_loop.induct)
  case (1 es needle left right)
  have True: "left \<le> right" using "1.prems"(6,7) by simp
  define mid where "mid = left + (right - left) div 2"
  note body = lookup_indexed_body_in_range [OF "1.prems"(2) True "1.prems"(3,4), folded mid_def]
  consider (hit) "ir_osm_id (es ! nat mid) = needle"
    | (less) "ir_osm_id (es ! nat mid) \<noteq> needle" "ir_osm_id (es ! nat mid) <s needle"
    | (greater) "ir_osm_id (es ! nat mid) \<noteq> needle" "\<not> ir_osm_id (es ! nat mid) <s needle"
    by blast
  then show ?case
  proof cases
    case hit
    with True body(1) [of needle] "1.prems"(5) show ?thesis
      by (simp add: lookup_indexed_loop.simps [of es needle left right])
  next
    case less
    with body(1) [of needle] have b: "lookup_indexed_body es needle left right = Continue (mid + 1) right"
      by simp
    with True "1.prems"(5) have r: "lookup_indexed_loop es needle (mid + 1) right = Inr None"
      by (simp add: lookup_indexed_loop.simps [of es needle left right])
    show ?thesis
    proof (cases "m \<le> mid")
      case True
      have "sint (ir_osm_id (es ! nat m)) \<le> sint (ir_osm_id (es ! nat mid))"
        using "1.prems"(1,2,3,6) True body(3) by (intro sorted_keys_nth) auto
      with less(2) have "sint (ir_osm_id (es ! nat m)) < sint needle"
        by (simp add: word_sless_alt)
      then show ?thesis by auto
    next
      case False
      then have "mid + 1 \<le> m" by simp
      from "1.IH" [OF \<open>left \<le> right\<close> b "1.prems"(1) _ "1.prems"(3,4) r this "1.prems"(7)]
        "1.prems"(2) body(2)
      show ?thesis by simp
    qed
  next
    case greater
    with body(1) [of needle] have b: "lookup_indexed_body es needle left right = Continue left (mid - 1)"
      by simp
    with True "1.prems"(5) have r: "lookup_indexed_loop es needle left (mid - 1) = Inr None"
      by (simp add: lookup_indexed_loop.simps [of es needle left right])
    show ?thesis
    proof (cases "mid \<le> m")
      case True
      have "sint (ir_osm_id (es ! nat mid)) \<le> sint (ir_osm_id (es ! nat m))"
        using "1.prems"(1,2,3,7) True body(2) by (intro sorted_keys_nth) auto
      moreover from greater have "sint needle < sint (ir_osm_id (es ! nat mid))"
        by (auto simp add: word_sless_alt not_less order_le_less dest: signed_word_eqI)
      ultimately show ?thesis by auto
    next
      case False
      then have "m \<le> mid - 1" by simp
      from "1.IH" [OF \<open>left \<le> right\<close> b "1.prems"(1,2) _ "1.prems"(4) r "1.prems"(6) this]
        "1.prems"(3) body(3)
      show ?thesis by simp
    qed
  qed
qed

section \<open>Termination of the lookup\<close>

text \<open>
  Claim C10. \<^verbatim>\<open>lookup_indexed\<close> terminates for every handle and every query. Whenever an
  iteration of the loop goes on, \<open>right - left\<close> is strictly smaller afterwards; hence
  \<open>right - left + 1\<close> iterations and the final test are enough for the loop to leave from
  any bounds, and \<open>n\<close> iterations and the final test are enough for \<^verbatim>\<open>lookup_indexed\<close> on
  a handle with \<open>n\<close> entries. The result within that bound is the result of the function.
\<close>

theorem lookup_indexed_terminates:
  "(left \<le> right \<and> lookup_indexed_body es needle left right = Continue left' right'
      \<longrightarrow> right' - left' < right - left) \<and>
   lookup_indexed_fuel (Suc (nat (right - left + 1))) es needle left right =
     Some (lookup_indexed_loop es needle left right) \<and>
   lookup_indexed_within (Suc (nat (idx_n data))) data needle = Some (lookup_indexed data needle)"
proof (intro conjI impI)
  assume "left \<le> right \<and> lookup_indexed_body es needle left right = Continue left' right'"
  then show "right' - left' < right - left"
    using lookup_indexed_body_shrinks by blast
next
  show "lookup_indexed_fuel (Suc (nat (right - left + 1))) es needle left right =
          Some (lookup_indexed_loop es needle left right)"
    by (rule lookup_indexed_fuel_enough) simp
next
  have "nat (idx_n data - 1 - 0 + 1) < Suc (nat (idx_n data))" by simp
  from lookup_indexed_fuel_enough [OF this]
  show "lookup_indexed_within (Suc (nat (idx_n data))) data needle = Some (lookup_indexed data needle)"
    by (simp add: lookup_indexed_within_def lookup_indexed_def)
qed

theorem lookup_indexed_terminates_witness:
  "(0::int) \<le> 2 \<and> lookup_indexed_body ex_entries 1337 0 2 = Continue 2 2 \<and> (2::int) - 2 < 2 - 0 \<and>
   lookup_indexed_fuel (Suc (nat (2 - 0 + 1))) ex_entries 1337 0 2 = Some (Inr (Some 0)) \<and>
   lookup_indexed_within (Suc (nat (idx_n ex_index))) ex_index 1337 = Some (Inr (Some 0)) \<and>
   lookup_indexed ex_index 1337 = Inr (Some 0)"
proof -
  have b: "lookup_indexed_body ex_entries 1337 0 2 = Continue 2 2" by code_simp
  have l: "lookup_indexed_loop ex_entries 1337 0 2 = Inr (Some 0)" by code_simp
  have r: "lookup_indexed ex_index 1337 = Inr (Some 0)" by code_simp
  from lookup_indexed_terminates [of 0 2 ex_entries 1337 2 2 ex_index] b l r
  show ?thesis by simp
qed

section \<open>The lookup is the canonical binary search\<close>

text \<open>
  Claim C7. On a handle whose \<open>n\<close> is the length of its entry array (and an \<^verbatim>\<open>int\<close>),
  \<^verbatim>\<open>lookup_indexed\<close> computes what the binary search of the specification computes, and
  raises no fault. For all bounds \<open>0 \<le> low \<le> high < n\<close>: neither \<open>high - low\<close> nor the
  midpoint \<open>low + (high - low) / 2\<close> leaves the range of \<^verbatim>\<open>int\<close>, C's truncating division
  agrees with the mathematical one, the midpoint lies in \<open>[low, high]\<close>, and one iteration
  returns the record reference on a hit, goes on with \<open>low = mid + 1\<close> when the entry is
  less than the target and with \<open>high = mid - 1\<close> otherwise. The loop leaves with "not
  found" when \<open>low > high\<close>, as the specification's search does.
\<close>

theorem lookup_indexed_canonical_binary_search:
  assumes "idx_n data = int (length (idx_irs data))" and "idx_n data \<le> INT_MAX"
  shows "lookup_indexed data needle =
           Inr (spec_binary_search (idx_irs data) needle 0 (idx_n data - 1)) \<and>
         (\<forall>low high. 0 \<le> low \<and> low \<le> high \<and> high < idx_n data \<longrightarrow>
            int_ok (high - low) \<and> int_ok (low + (high - low) sdiv 2) \<and>
            low + (high - low) sdiv 2 = low + (high - low) div 2 \<and>
            low \<le> low + (high - low) sdiv 2 \<and> low + (high - low) sdiv 2 \<le> high \<and>
            lookup_indexed_body (idx_irs data) needle low high =
              (let mid = low + (high - low) div 2 in
               if ir_osm_id (idx_irs data ! nat mid) = needle
               then Return (Inr (Some (ir_record (idx_irs data ! nat mid))))
               else if sint (ir_osm_id (idx_irs data ! nat mid)) < sint needle
               then Continue (mid + 1) high
               else Continue low (mid - 1)) \<and>
            lookup_indexed_loop (idx_irs data) needle low high =
              Inr (spec_binary_search (idx_irs data) needle low high))"
proof (intro conjI allI impI)
  have len: "int (length (idx_irs data)) \<le> INT_MAX" using assms by simp
  have "int_ok (idx_n data - 1)"
    using assms by (simp add: int_ok_def INT_MAX_def INT_MIN_def)
  moreover have "lookup_indexed_loop (idx_irs data) needle 0 (idx_n data - 1) =
      Inr (spec_binary_search (idx_irs data) needle 0 (idx_n data - 1))"
    using assms(1) len by (intro lookup_indexed_loop_refines) simp_all
  ultimately show "lookup_indexed data needle =
      Inr (spec_binary_search (idx_irs data) needle 0 (idx_n data - 1))"
    by (simp add: lookup_indexed_def)
  fix low high :: int
  assume range: "0 \<le> low \<and> low \<le> high \<and> high < idx_n data"
  then have lo: "0 \<le> low" and le: "low \<le> high" and hi: "high < int (length (idx_irs data))"
    using assms(1) by simp_all
  have d: "0 \<le> high - low" using le by simp
  note body = lookup_indexed_body_in_range [OF lo le hi len]
  show eq: "low + (high - low) sdiv 2 = low + (high - low) div 2"
    using sdiv_2_bounds(3) [OF d] by simp
  show "low \<le> low + (high - low) sdiv 2" and "low + (high - low) sdiv 2 \<le> high"
    using body(2,3) unfolding eq by simp_all
  show "int_ok (high - low)" and "int_ok (low + (high - low) sdiv 2)"
    using lo le hi len body(2,3) unfolding eq
    by (simp_all add: int_ok_def INT_MAX_def INT_MIN_def)
  show "lookup_indexed_body (idx_irs data) needle low high =
              (let mid = low + (high - low) div 2 in
               if ir_osm_id (idx_irs data ! nat mid) = needle
               then Return (Inr (Some (ir_record (idx_irs data ! nat mid))))
               else if sint (ir_osm_id (idx_irs data ! nat mid)) < sint needle
               then Continue (mid + 1) high
               else Continue low (mid - 1))"
    using body(1) [of needle] by (simp add: Let_def word_sless_alt)
  show "lookup_indexed_loop (idx_irs data) needle low high =
          Inr (spec_binary_search (idx_irs data) needle low high)"
    using lo hi len by (rule lookup_indexed_loop_refines)
qed

theorem lookup_indexed_canonical_binary_search_witness:
  "idx_n ex_index = int (length (idx_irs ex_index)) \<and> idx_n ex_index \<le> INT_MAX \<and>
   lookup_indexed ex_index 45 = Inr (spec_binary_search (idx_irs ex_index) 45 0 (idx_n ex_index - 1)) \<and>
   lookup_indexed ex_index 45 = Inr (Some 1) \<and>
   (0::int) \<le> 0 \<and> (0::int) \<le> 2 \<and> 2 < idx_n ex_index \<and>
   int_ok (2 - 0) \<and> int_ok (0 + (2 - 0) sdiv 2) \<and>
   lookup_indexed_body (idx_irs ex_index) 45 0 2 = Return (Inr (Some 1)) \<and>
   lookup_indexed_loop (idx_irs ex_index) 45 0 2 = Inr (spec_binary_search (idx_irs ex_index) 45 0 2)"
proof -
  have h1: "idx_n ex_index = int (length (idx_irs ex_index))"
    by (simp add: ex_index_def ex_entries_def)
  have h2: "idx_n ex_index \<le> INT_MAX"
    by (simp add: ex_index_def INT_MAX_def)
  have r: "0 \<le> (0::int) \<and> (0::int) \<le> 2 \<and> 2 < idx_n ex_index"
    by (simp add: ex_index_def)
  have v: "lookup_indexed ex_index 45 = Inr (Some 1)"
    "lookup_indexed_body (idx_irs ex_index) 45 0 2 = Return (Inr (Some 1))"
    by code_simp+
  note inst = lookup_indexed_canonical_binary_search [OF h1 h2, of 45]
  from inst have a: "lookup_indexed ex_index 45 =
      Inr (spec_binary_search (idx_irs ex_index) 45 0 (idx_n ex_index - 1))"
    by (rule conjunct1)
  from inst [THEN conjunct2, rule_format, OF r]
  have b: "int_ok (2 - 0)" "int_ok (0 + (2 - 0) sdiv 2)"
    "lookup_indexed_loop (idx_irs ex_index) 45 0 2 =
       Inr (spec_binary_search (idx_irs ex_index) 45 0 2)"
    by blast+
  from h1 h2 r a b v show ?thesis by blast
qed

section \<open>The allocator and the build\<close>

lemma fold_max_ge: "a \<le> fold max h (a::nat)" "x \<in> set h \<Longrightarrow> x \<le> fold max h a"
proof (induction h arbitrary: a)
  case Nil
  { case 1 show ?case by simp }
  { case 2 then show ?case by simp }
next
  case (Cons y h)
  { case 1
    have "max y a \<le> fold max h (max y a)" by (rule Cons.IH(1))
    then show ?case by simp }
  { case 2
    show ?case
    proof (cases "x = y")
      case True
      have "max y a \<le> fold max h (max y a)" by (rule Cons.IH(1))
      with True show ?thesis by simp
    next
      case False
      with 2 have "x \<in> set h" by simp
      from Cons.IH(2) [OF this] show ?thesis by simp
    qed }
qed

lemma fresh_not_live: "fresh h \<notin> set h"
proof
  assume "fresh h \<in> set h"
  from fold_max_ge(2) [OF this, of 0] show False by (simp add: fresh_def)
qed

lemma free_fresh: "free (fresh h) (fresh h # h) = h"
  using fresh_not_live [of h] by (simp add: free_def)

lemma mk_indexed_loop_run:
  "0 \<le> i \<Longrightarrow> i \<le> n \<Longrightarrow> n = int (length rs) \<Longrightarrow>
   mk_indexed_loop rs n i acc =
     Inr (acc @ map (\<lambda>j. \<lparr>ir_osm_id = osm_id (rs ! j), ir_record = j\<rparr>) [nat i..<length rs])"
proof (induction rs n i acc rule: mk_indexed_loop.induct)
  case (1 rs n i acc)
  show ?case
  proof (cases "i < n")
    case False
    then have "mk_indexed_loop rs n i acc = Inr acc"
      by (subst mk_indexed_loop.simps) simp
    moreover have "[nat i..<length rs] = []"
      using False "1.prems" by simp
    ultimately show ?thesis by simp
  next
    case True
    with "1.prems" have inb: "\<not> (i < 0 \<or> int (length rs) \<le> i)" by simp
    have "mk_indexed_loop rs n (i + 1) (acc @ [\<lparr>ir_osm_id = osm_id (rs ! nat i), ir_record = nat i\<rparr>]) =
      Inr ((acc @ [\<lparr>ir_osm_id = osm_id (rs ! nat i), ir_record = nat i\<rparr>]) @
        map (\<lambda>j. \<lparr>ir_osm_id = osm_id (rs ! j), ir_record = j\<rparr>) [nat (i + 1)..<length rs])"
      using True "1.prems" by (intro "1.IH" [OF True inb]) simp_all
    moreover have "[nat i..<length rs] = nat i # [nat (i + 1)..<length rs]"
      using True "1.prems" by (simp add: upt_conv_Cons nat_add_distrib)
    moreover have "mk_indexed_loop rs n i acc =
        mk_indexed_loop rs n (i + 1) (acc @ [\<lparr>ir_osm_id = osm_id (rs ! nat i), ir_record = nat i\<rparr>])"
      using True inb by (subst mk_indexed_loop.simps) simp
    ultimately show ?thesis by simp
  qed
qed

lemma mk_indexed_loop_all:
  "mk_indexed_loop rs (int (length rs)) 0 [] = Inr (index_entries rs)"
  using mk_indexed_loop_run [of 0 "int (length rs)" rs "[]"] by (simp add: index_entries_def)

lemma mk_indexed_cases:
  "mk_indexed qsort oks h rs (int (length rs)) =
     (if \<not> fst oks then Inr (None, h)
      else if \<not> snd oks then Inr (None, h)
      else Inr (Some \<lparr>idx_addr = fresh h, irs_addr = fresh (fresh h # h),
                       idx_irs = qsort (index_entries rs) compare_index_records,
                       idx_n = int (length rs)\<rparr>, fresh (fresh h # h) # fresh h # h))"
  by (simp add: mk_indexed_def malloc_def mk_indexed_loop_all free_fresh)

lemma mk_indexed_built:
  assumes "mk_indexed qsort oks h rs (int (length rs)) = Inr (Some data, h')"
  shows "idx_irs data = qsort (index_entries rs) compare_index_records"
    and "idx_n data = int (length rs)"
  using assms by (auto simp add: mk_indexed_cases split: if_splits)

lemma compare_index_records_le:
  "compare_index_records a b \<le> 0 \<longleftrightarrow> sint (ir_osm_id a) \<le> sint (ir_osm_id b)"
  by (auto simp add: compare_index_records_def word_sless_alt)

lemma qsort_contract_sorted:
  assumes "qsort_contract qsort compare_index_records es"
  shows "sorted (map (\<lambda>e. sint (ir_osm_id e)) (qsort es compare_index_records))"
  using assms by (simp add: qsort_contract_def sorted_map compare_index_records_le)

lemma qsort_contract_perm:
  assumes "qsort_contract qsort compare_index_records es"
  shows "set (qsort es compare_index_records) = set es"
    and "length (qsort es compare_index_records) = length es"
  using assms by (auto simp add: qsort_contract_def dest: mset_eq_setD mset_eq_length)

lemma ex_build:
  "mk_indexed insertion_qsort (True, True) [] ex_records 3 = Inr (Some ex_index, [2, 1])"
  by code_simp

lemma ex_contract: "qsort_contract insertion_qsort compare_index_records (index_entries ex_records)"
  by code_simp

lemma index_entries_nth:
  "i < length rs \<Longrightarrow> index_entries rs ! i = \<lparr>ir_osm_id = osm_id (rs ! i), ir_record = i\<rparr>"
  by (simp add: index_entries_def)

lemma index_entries_mem:
  "e \<in> set (index_entries rs) \<Longrightarrow>
   ir_record e < length rs \<and> ir_osm_id e = osm_id (rs ! ir_record e)"
  by (auto simp add: index_entries_def)

text \<open>What the lookup returns on a sorted permutation of the entries of \<open>rs\<close>.\<close>

lemma lookup_indexed_on_sorted_entries:
  assumes sorted: "sorted (map (\<lambda>e. sint (ir_osm_id e)) es)"
    and set: "set es = set (index_entries rs)"
    and len: "length es = length rs"
    and n: "idx_irs data = es" "idx_n data = int (length rs)"
    and max: "int (length rs) \<le> INT_MAX"
  shows "(\<exists>i<length rs. osm_id (rs ! i) = needle) \<longrightarrow>
           (\<exists>j<length rs. lookup_indexed data needle = Inr (Some j) \<and> osm_id (rs ! j) = needle)"
    and "(\<forall>i<length rs. osm_id (rs ! i) \<noteq> needle) \<longrightarrow> lookup_indexed data needle = Inr None"
proof -
  have ok: "int_ok (idx_n data - 1)"
    using n max by (simp add: int_ok_def INT_MAX_def INT_MIN_def)
  have b: "(0::int) \<le> 0" "int (length rs) - 1 < int (length es)" "int (length es) \<le> INT_MAX"
    using len max by simp_all
  have eq: "lookup_indexed data needle = lookup_indexed_loop es needle 0 (int (length rs) - 1)"
    using ok n by (simp add: lookup_indexed_def)
  obtain x where x: "lookup_indexed_loop es needle 0 (int (length rs) - 1) = Inr x"
    using lookup_indexed_loop_refines [OF b] by blast
  have found: "\<exists>j<length rs. x = Some j \<and> osm_id (rs ! j) = needle" if "x \<noteq> None"
  proof -
    from that obtain p where p: "x = Some p" by auto
    from lookup_indexed_loop_found [OF b x [unfolded p]]
    obtain m where m: "0 \<le> m" "m \<le> int (length rs) - 1" "ir_osm_id (es ! nat m) = needle"
      "p = ir_record (es ! nat m)" by blast
    from m(1,2) len have "es ! nat m \<in> set es" by (intro nth_mem) simp
    with set have "es ! nat m \<in> set (index_entries rs)" by simp
    from index_entries_mem [OF this] m(3,4) p show ?thesis by auto
  qed
  have absent: "\<forall>i<length rs. osm_id (rs ! i) \<noteq> needle" if "x = None"
  proof (intro allI impI)
    fix i assume i: "i < length rs"
    then have "index_entries rs ! i \<in> set (index_entries rs)"
      by (intro nth_mem) (simp add: index_entries_def)
    with set have "index_entries rs ! i \<in> set es" by simp
    then obtain m where m: "m < length es" "es ! m = index_entries rs ! i"
      by (auto simp add: in_set_conv_nth)
    have "ir_osm_id (es ! nat (int m)) \<noteq> needle"
      using m(1) len
      by (intro lookup_indexed_loop_not_found [OF sorted b x [unfolded that]]) simp_all
    with m(2) i show "osm_id (rs ! i) \<noteq> needle"
      by (simp add: index_entries_nth)
  qed
  show "(\<exists>i<length rs. osm_id (rs ! i) = needle) \<longrightarrow>
           (\<exists>j<length rs. lookup_indexed data needle = Inr (Some j) \<and> osm_id (rs ! j) = needle)"
    using found absent unfolding eq x by (cases x) auto
  show "(\<forall>i<length rs. osm_id (rs ! i) \<noteq> needle) \<longrightarrow> lookup_indexed data needle = Inr None"
    using found unfolding eq x by (cases x) auto
qed

lemma after_call_None: "foldl after_call None calls = None"
  by (induction calls) simp_all

lemma after_calls_same:
  "foldl after_call (Some data) calls = Some data' \<Longrightarrow> data' = data"
proof (induction calls arbitrary: data)
  case Nil
  then show ?case by simp
next
  case (Cons c calls)
  then show ?case by (cases c) (simp_all add: after_call_None)
qed

section \<open>Correctness of the Sorted Index lookup\<close>

text \<open>
  Claim C1. Let \<^verbatim>\<open>mk_indexed\<close> have built an index over the record array \<open>rs\<close> (\<open>n\<close> is
  the length of \<open>rs\<close>, an \<^verbatim>\<open>int\<close>; \<^verbatim>\<open>qsort\<close> kept its contract on the entry array). If
  some record of \<open>rs\<close> has the identifier \<open>needle\<close>, \<^verbatim>\<open>lookup_indexed\<close> returns a pointer
  to a record of \<open>rs\<close> whose identifier is \<open>needle\<close>; if none has, it returns \<^verbatim>\<open>NULL\<close>.
  Neither case raises a fault.
\<close>

theorem sorted_index_lookup_correct:
  assumes "mk_indexed qsort oks h rs (int (length rs)) = Inr (Some data, h')"
    and "int (length rs) \<le> INT_MAX"
    and "qsort_contract qsort compare_index_records (index_entries rs)"
  shows "((\<exists>i<length rs. osm_id (rs ! i) = needle) \<longrightarrow>
            (\<exists>j<length rs. lookup_indexed data needle = Inr (Some j) \<and> osm_id (rs ! j) = needle)) \<and>
         ((\<forall>i<length rs. osm_id (rs ! i) \<noteq> needle) \<longrightarrow> lookup_indexed data needle = Inr None)"
proof -
  note built = mk_indexed_built [OF assms(1)]
  have "sorted (map (\<lambda>e. sint (ir_osm_id e)) (idx_irs data))"
    unfolding built(1) by (rule qsort_contract_sorted [OF assms(3)])
  moreover have "set (idx_irs data) = set (index_entries rs)"
    unfolding built(1) by (rule qsort_contract_perm(1) [OF assms(3)])
  moreover have "length (idx_irs data) = length rs"
    unfolding built(1) using qsort_contract_perm(2) [OF assms(3)] by (simp add: index_entries_def)
  ultimately show ?thesis
    using lookup_indexed_on_sorted_entries [OF _ _ _ refl built(2) assms(2), of needle]
    by blast
qed

theorem sorted_index_lookup_correct_witness:
  "mk_indexed insertion_qsort (True, True) [] ex_records (int (length ex_records)) =
     Inr (Some ex_index, [2, 1]) \<and>
   int (length ex_records) \<le> INT_MAX \<and>
   qsort_contract insertion_qsort compare_index_records (index_entries ex_records) \<and>
   1 < length ex_records \<and> osm_id (ex_records ! 1) = 45 \<and>
   (\<exists>j<length ex_records. lookup_indexed ex_index 45 = Inr (Some j) \<and> osm_id (ex_records ! j) = 45) \<and>
   lookup_indexed ex_index 45 = Inr (Some 1) \<and>
   99999 \<notin> osm_id ` set ex_records \<and>
   lookup_indexed ex_index 99999 = Inr None"
proof -
  have len: "length ex_records = 3" by (simp add: ex_records_def)
  have b: "mk_indexed insertion_qsort (True, True) [] ex_records (int (length ex_records)) =
     Inr (Some ex_index, [2, 1])"
    unfolding len using ex_build by simp
  have m: "int (length ex_records) \<le> INT_MAX" by (simp add: len INT_MAX_def)
  have p: "1 < length ex_records \<and> osm_id (ex_records ! 1) = 45"
    by (simp add: ex_records_def)
  have a: "\<forall>i<length ex_records. osm_id (ex_records ! i) \<noteq> 99999"
    by (simp add: ex_records_def less_Suc_eq)
  have v: "lookup_indexed ex_index 45 = Inr (Some 1)" by code_simp
  from p have e: "\<exists>i<length ex_records. osm_id (ex_records ! i) = 45" by blast
  from sorted_index_lookup_correct [OF b m ex_contract, of 45] e
  have r1: "\<exists>j<length ex_records. lookup_indexed ex_index 45 = Inr (Some j) \<and> osm_id (ex_records ! j) = 45"
    by blast
  from sorted_index_lookup_correct [OF b m ex_contract, of 99999] a
  have r2: "lookup_indexed ex_index 99999 = Inr None" by blast
  have a': "99999 \<notin> osm_id ` set ex_records" by (simp add: ex_records_def)
  from b m ex_contract p r1 v a' r2 show ?thesis by blast
qed

section \<open>The entry array is sorted\<close>

text \<open>
  Claim C3. After a successful \<^verbatim>\<open>mk_indexed\<close> the entry array is sorted in
  non-decreasing order of the identifiers, read as signed 64-bit numbers. The handle
  after any sequence of calls is either gone (after \<^verbatim>\<open>free_indexed\<close>) or has the very
  same entry array, still sorted: no call after the build changes the array.
\<close>

theorem mk_indexed_sorted:
  assumes "mk_indexed qsort oks h rs (int (length rs)) = Inr (Some data, h')"
    and "qsort_contract qsort compare_index_records (index_entries rs)"
  shows "sorted (map (\<lambda>e. sint (ir_osm_id e)) (idx_irs data)) \<and>
         (\<forall>calls data'. foldl after_call (Some data) calls = Some data' \<longrightarrow>
            idx_irs data' = idx_irs data \<and>
            sorted (map (\<lambda>e. sint (ir_osm_id e)) (idx_irs data')))"
proof -
  have s: "sorted (map (\<lambda>e. sint (ir_osm_id e)) (idx_irs data))"
    unfolding mk_indexed_built(1) [OF assms(1)] by (rule qsort_contract_sorted [OF assms(2)])
  then show ?thesis by (auto dest: after_calls_same)
qed

theorem mk_indexed_sorted_witness:
  "mk_indexed insertion_qsort (True, True) [] ex_records (int (length ex_records)) =
     Inr (Some ex_index, [2, 1]) \<and>
   qsort_contract insertion_qsort compare_index_records (index_entries ex_records) \<and>
   sorted (map (\<lambda>e. sint (ir_osm_id e)) (idx_irs ex_index)) \<and>
   map (\<lambda>e. sint (ir_osm_id e)) (idx_irs ex_index) = [- 7, 45, 1337] \<and>
   foldl after_call (Some ex_index) [Lookup 45, Lookup 99999] = Some ex_index \<and>
   foldl after_call (Some ex_index) [Lookup 45, Free, Lookup 45] = None"
proof -
  have len: "length ex_records = 3" by (simp add: ex_records_def)
  have b: "mk_indexed insertion_qsort (True, True) [] ex_records (int (length ex_records)) =
     Inr (Some ex_index, [2, 1])"
    unfolding len using ex_build by simp
  have k: "map (\<lambda>e. sint (ir_osm_id e)) (idx_irs ex_index) = [- 7, 45, 1337]"
    by (simp add: ex_index_def ex_entries_def)
  have c: "foldl after_call (Some ex_index) [Lookup 45, Lookup 99999] = Some ex_index"
    "foldl after_call (Some ex_index) [Lookup 45, Free, Lookup 45] = None"
    by simp_all
  from mk_indexed_sorted [OF b ex_contract] b ex_contract k c
  show ?thesis by blast
qed

section \<open>Allocation failure in the build\<close>

text \<open>
  Claim C4. If the first \<^verbatim>\<open>malloc\<close> of \<^verbatim>\<open>mk_indexed\<close> fails, the call returns \<^verbatim>\<open>NULL\<close>
  and the heap is as before. If the first succeeds and the second fails, the block of
  the first, which was not live before the call, is freed again: the call returns
  \<^verbatim>\<open>NULL\<close> and the heap is as before the call. A handle is returned only when both
  allocations succeeded, and then it is complete: \<open>n\<close> is set, the entry array is the
  sorted result of the whole build loop, and the heap holds exactly the two new blocks
  more.
\<close>

theorem mk_indexed_allocation_failure:
  "(\<not> fst oks \<longrightarrow> mk_indexed qsort oks h rs n = Inr (None, h)) \<and>
   (fst oks \<and> \<not> snd oks \<longrightarrow>
      malloc (fst oks) h = (Some (fresh h), fresh h # h) \<and>
      malloc (snd oks) (fresh h # h) = (None, fresh h # h) \<and>
      fresh h \<notin> set h \<and> free (fresh h) (fresh h # h) = h \<and>
      mk_indexed qsort oks h rs n = Inr (None, h)) \<and>
   (\<forall>data h'. mk_indexed qsort oks h rs n = Inr (Some data, h') \<longrightarrow>
      fst oks \<and> snd oks \<and> idx_n data = n \<and>
      (\<exists>es. mk_indexed_loop rs n 0 [] = Inr es \<and>
            idx_irs data = qsort es compare_index_records) \<and>
      h' = irs_addr data # idx_addr data # h)"
proof (intro conjI allI impI)
  assume "\<not> fst oks"
  then show "mk_indexed qsort oks h rs n = Inr (None, h)"
    by (simp add: mk_indexed_def malloc_def)
next
  assume a: "fst oks \<and> \<not> snd oks"
  then show "malloc (fst oks) h = (Some (fresh h), fresh h # h)"
    and "malloc (snd oks) (fresh h # h) = (None, fresh h # h)"
    by (simp_all add: malloc_def)
  show "fresh h \<notin> set h" by (rule fresh_not_live)
  show "free (fresh h) (fresh h # h) = h" by (rule free_fresh)
  from a show "mk_indexed qsort oks h rs n = Inr (None, h)"
    by (simp add: mk_indexed_def malloc_def free_fresh)
next
  fix data h'
  assume b: "mk_indexed qsort oks h rs n = Inr (Some data, h')"
  then show "fst oks" and "snd oks"
    by (auto simp add: mk_indexed_def malloc_def split: if_splits)
  with b show "idx_n data = n" and "h' = irs_addr data # idx_addr data # h"
    and "\<exists>es. mk_indexed_loop rs n 0 [] = Inr es \<and>
            idx_irs data = qsort es compare_index_records"
    by (auto simp add: mk_indexed_def malloc_def split: if_splits sum.splits)
qed

theorem mk_indexed_allocation_failure_witness:
  "\<not> fst (False, True) \<and>
   mk_indexed insertion_qsort (False, True) [4, 9] ex_records 3 = Inr (None, [4, 9]) \<and>
   fst (True, False) \<and> \<not> snd (True, False) \<and>
   malloc True [4, 9] = (Some 10, [10, 4, 9]) \<and>
   malloc False [10, 4, 9] = (None, [10, 4, 9]) \<and>
   free 10 [10, 4, 9] = [4, 9] \<and>
   mk_indexed insertion_qsort (True, False) [4, 9] ex_records 3 = Inr (None, [4, 9]) \<and>
   mk_indexed insertion_qsort (True, True) [] ex_records 3 = Inr (Some ex_index, [2, 1]) \<and>
   idx_n ex_index = 3 \<and> [2, 1] = irs_addr ex_index # idx_addr ex_index # []"
proof -
  have f: "fresh [4, 9] = 10" by code_simp
  have m: "malloc True [4, 9] = (Some 10, [10, 4, 9])"
    "malloc False [10, 4, 9] = (None, [10, 4, 9])" "free 10 [10, 4, 9] = [4, 9]"
    by code_simp+
  have 1: "mk_indexed insertion_qsort (False, True) [4, 9] ex_records 3 = Inr (None, [4, 9])"
    using mk_indexed_allocation_failure [of "(False, True)" insertion_qsort "[4, 9]" ex_records 3]
    by simp
  have 2: "mk_indexed insertion_qsort (True, False) [4, 9] ex_records 3 = Inr (None, [4, 9])"
    using mk_indexed_allocation_failure [of "(True, False)" insertion_qsort "[4, 9]" ex_records 3]
    by simp
  have 3: "idx_n ex_index = 3 \<and> [2, 1] = irs_addr ex_index # idx_addr ex_index # []"
    using mk_indexed_allocation_failure [of "(True, True)" insertion_qsort "[]" ex_records 3]
      ex_build by blast
  from 1 2 3 m ex_build show ?thesis by simp
qed

section \<open>Build and release\<close>

text \<open>
  The two blocks of a built handle are new and distinct, and \<^verbatim>\<open>free_indexed\<close> gives both
  back: after it the heap is the heap of before the build.
\<close>

lemma free_indexed_restores_heap:
  assumes "mk_indexed qsort oks h rs n = Inr (Some data, h')"
  shows "idx_addr data \<notin> set h \<and> irs_addr data \<notin> set h \<and> idx_addr data \<noteq> irs_addr data \<and>
         set h' = {idx_addr data, irs_addr data} \<union> set h \<and>
         free_indexed data h' = h"
proof -
  from assms have d: "idx_addr data = fresh h" "irs_addr data = fresh (fresh h # h)"
    "h' = fresh (fresh h # h) # fresh h # h"
    by (auto simp add: mk_indexed_def malloc_def split: if_splits sum.splits)
  have 1: "fresh h \<notin> set h" by (rule fresh_not_live)
  have 2: "fresh (fresh h # h) \<notin> set (fresh h # h)" by (rule fresh_not_live)
  have "free (fresh (fresh h # h)) (fresh (fresh h # h) # fresh h # h) = fresh h # h"
    by (rule free_fresh)
  then have "free_indexed data h' = h"
    by (simp add: free_indexed_def d free_fresh)
  with 1 2 d show ?thesis by auto
qed

section \<open>Coordinate Scanner: the nearest record\<close>

lemma lookup_naive_loop_returns:
  "0 \<le> i \<Longrightarrow> n \<le> int (length rs) \<Longrightarrow> closest < length rs \<Longrightarrow>
   \<exists>c<length rs. lookup_naive_loop rs n qlon qlat i closest m = Inr (Some c)"
proof (induction rs n qlon qlat i closest m rule: lookup_naive_loop.induct)
  case (1 rs n qlon qlat i closest m)
  show ?case
  proof (cases "i < n")
    case False
    then have "lookup_naive_loop rs n qlon qlat i closest m = Inr (Some closest)"
      by (subst lookup_naive_loop.simps) simp
    with "1.prems"(3) show ?thesis by blast
  next
    case True
    with "1.prems" have inb: "\<not> (i < 0 \<or> int (length rs) \<le> i)" by simp
    define d where "d = dist_sq_of rs qlon qlat (nat i)"
    have step: "lookup_naive_loop rs n qlon qlat i closest m =
        (if d < m then lookup_naive_loop rs n qlon qlat (i + 1) (nat i) d
         else lookup_naive_loop rs n qlon qlat (i + 1) closest m)"
      using True inb
      by (subst lookup_naive_loop.simps) (simp add: Let_def d_def dist_sq_of_def)
    show ?thesis
    proof (cases "d < m")
      case less: True
      have "\<exists>c<length rs. lookup_naive_loop rs n qlon qlat (i + 1) (nat i) d = Inr (Some c)"
        using "1.prems" inb less
        by (intro "1.IH"(1) [OF True inb refl refl refl, folded dist_sq_of_def d_def]) simp_all
      with less show ?thesis by (simp add: step)
    next
      case nless: False
      have "\<exists>c<length rs. lookup_naive_loop rs n qlon qlat (i + 1) closest m = Inr (Some c)"
        using "1.prems" inb nless
        by (intro "1.IH"(2) [OF True inb refl refl refl, folded dist_sq_of_def d_def]) simp_all
      with nless show ?thesis by (simp add: step)
    qed
  qed
qed

lemma lookup_naive_loop_nearest:
  fixes rs :: "'a::{plus,minus,times,linorder} record_t list"
  shows "0 \<le> i \<Longrightarrow> i \<le> n \<Longrightarrow> n = int (length rs) \<Longrightarrow> closest < nat i \<Longrightarrow>
   m = dist_sq_of rs qlon qlat closest \<Longrightarrow>
   (\<forall>j<nat i. m \<le> dist_sq_of rs qlon qlat j) \<Longrightarrow>
   (\<forall>j<closest. m < dist_sq_of rs qlon qlat j) \<Longrightarrow>
   \<exists>c<length rs. lookup_naive_loop rs n qlon qlat i closest m = Inr (Some c) \<and>
     (\<forall>j<length rs. dist_sq_of rs qlon qlat c \<le> dist_sq_of rs qlon qlat j) \<and>
     (\<forall>j<c. dist_sq_of rs qlon qlat c < dist_sq_of rs qlon qlat j)"
proof (induction rs n qlon qlat i closest m rule: lookup_naive_loop.induct)
  case (1 rs n qlon qlat i closest m)
  show ?case
  proof (cases "i < n")
    case False
    then have "lookup_naive_loop rs n qlon qlat i closest m = Inr (Some closest)"
      by (subst lookup_naive_loop.simps) simp
    moreover from False "1.prems"(2,3) have "nat i = length rs" by simp
    ultimately show ?thesis using "1.prems"(4-7) by auto
  next
    case True
    with "1.prems" have inb: "\<not> (i < 0 \<or> int (length rs) \<le> i)" by simp
    define d where "d = dist_sq_of rs qlon qlat (nat i)"
    have step: "lookup_naive_loop rs n qlon qlat i closest m =
        (if d < m then lookup_naive_loop rs n qlon qlat (i + 1) (nat i) d
         else lookup_naive_loop rs n qlon qlat (i + 1) closest m)"
      using True inb
      by (subst lookup_naive_loop.simps) (simp add: Let_def d_def dist_sq_of_def)
    have suc: "nat (i + 1) = Suc (nat i)" using "1.prems"(1) by simp
    show ?thesis
    proof (cases "d < m")
      case less: True
      have a: "\<forall>j<nat (i + 1). d \<le> dist_sq_of rs qlon qlat j"
      proof (intro allI impI)
        fix j assume "j < nat (i + 1)"
        then consider "j < nat i" | "j = nat i" unfolding suc by linarith
        then show "d \<le> dist_sq_of rs qlon qlat j"
        proof cases
          case 1
          with "1.prems"(6) have "m \<le> dist_sq_of rs qlon qlat j" by simp
          with less show ?thesis by simp
        next
          case 2
          then show ?thesis by (simp add: d_def)
        qed
      qed
      have b: "\<forall>j<nat i. d < dist_sq_of rs qlon qlat j"
      proof (intro allI impI)
        fix j assume "j < nat i"
        with "1.prems"(6) have "m \<le> dist_sq_of rs qlon qlat j" by simp
        with less show "d < dist_sq_of rs qlon qlat j" by simp
      qed
      have "\<exists>c<length rs. lookup_naive_loop rs n qlon qlat (i + 1) (nat i) d = Inr (Some c) \<and>
          (\<forall>j<length rs. dist_sq_of rs qlon qlat c \<le> dist_sq_of rs qlon qlat j) \<and>
          (\<forall>j<c. dist_sq_of rs qlon qlat c < dist_sq_of rs qlon qlat j)"
        using "1.prems"(1,3) True a b less
        by (intro "1.IH"(1) [OF True inb refl refl refl, folded dist_sq_of_def d_def])
          (simp_all add: d_def)
      with less show ?thesis by (simp add: step)
    next
      case nless: False
      have a: "\<forall>j<nat (i + 1). m \<le> dist_sq_of rs qlon qlat j"
      proof (intro allI impI)
        fix j assume "j < nat (i + 1)"
        then consider "j < nat i" | "j = nat i" unfolding suc by linarith
        then show "m \<le> dist_sq_of rs qlon qlat j"
        proof cases
          case 1
          with "1.prems"(6) show ?thesis by simp
        next
          case 2
          with nless show ?thesis by (simp add: d_def)
        qed
      qed
      have "\<exists>c<length rs. lookup_naive_loop rs n qlon qlat (i + 1) closest m = Inr (Some c) \<and>
          (\<forall>j<length rs. dist_sq_of rs qlon qlat c \<le> dist_sq_of rs qlon qlat j) \<and>
          (\<forall>j<c. dist_sq_of rs qlon qlat c < dist_sq_of rs qlon qlat j)"
        using "1.prems"(1,3,4,5,7) True a nless
        by (intro "1.IH"(2) [OF True inb refl refl refl, folded dist_sq_of_def d_def])
          simp_all
      with nless show ?thesis by (simp add: step)
    qed
  qed
qed

text \<open>
  Claim C2. Coordinates are compared by a linear order (as \<^verbatim>\<open>double\<close> values are, NaN
  apart); nothing is assumed about subtraction, multiplication and addition. For a
  non-empty record array (\<open>n\<close> its length) and any query point, \<^verbatim>\<open>lookup_naive\<close> returns
  a pointer to a record of the array whose squared planar distance to the query, as the
  loop computes it, is less than or equal to that of every record of the array. Among
  the records at that minimal distance it is the earliest in store order: every record
  at an equal distance comes no earlier, and every earlier record is strictly farther.
\<close>

theorem lookup_naive_nearest_first:
  fixes data :: "'a::{plus,minus,times,linorder} naive_data"
  assumes "nv_n data = int (length (nv_rs data))" and "nv_rs data \<noteq> []"
  shows "\<exists>c<length (nv_rs data).
           lookup_naive data qlon qlat = Inr (Some c) \<and>
           (\<forall>j<length (nv_rs data).
              dist_sq_of (nv_rs data) qlon qlat c \<le> dist_sq_of (nv_rs data) qlon qlat j) \<and>
           (\<forall>j<length (nv_rs data).
              dist_sq_of (nv_rs data) qlon qlat j = dist_sq_of (nv_rs data) qlon qlat c \<longrightarrow> c \<le> j) \<and>
           (\<forall>j<c. dist_sq_of (nv_rs data) qlon qlat c < dist_sq_of (nv_rs data) qlon qlat j)"
proof -
  define rs where "rs = nv_rs data"
  have n: "nv_n data = int (length rs)" and ne: "rs \<noteq> []"
    using assms by (simp_all add: rs_def)
  then have pos: "0 < length rs" by simp
  have eq: "lookup_naive data qlon qlat =
      lookup_naive_loop rs (int (length rs)) qlon qlat 1 0 (dist_sq_of rs qlon qlat 0)"
    using n ne pos by (simp add: lookup_naive_def rs_def [symmetric] dist_sq_of_def Let_def)
  have "\<exists>c<length rs.
      lookup_naive_loop rs (int (length rs)) qlon qlat 1 0 (dist_sq_of rs qlon qlat 0) = Inr (Some c) \<and>
      (\<forall>j<length rs. dist_sq_of rs qlon qlat c \<le> dist_sq_of rs qlon qlat j) \<and>
      (\<forall>j<c. dist_sq_of rs qlon qlat c < dist_sq_of rs qlon qlat j)"
    using pos by (intro lookup_naive_loop_nearest) (simp_all add: Suc_le_eq)
  then obtain c where c: "c < length rs" "lookup_naive data qlon qlat = Inr (Some c)"
    "\<forall>j<length rs. dist_sq_of rs qlon qlat c \<le> dist_sq_of rs qlon qlat j"
    "\<forall>j<c. dist_sq_of rs qlon qlat c < dist_sq_of rs qlon qlat j"
    unfolding eq by blast
  have "\<forall>j<length rs. dist_sq_of rs qlon qlat j = dist_sq_of rs qlon qlat c \<longrightarrow> c \<le> j"
  proof (intro allI impI)
    fix j assume "j < length rs" and e: "dist_sq_of rs qlon qlat j = dist_sq_of rs qlon qlat c"
    show "c \<le> j"
    proof (rule ccontr)
      assume "\<not> c \<le> j"
      then have "j < c" by simp
      with c(4) have "dist_sq_of rs qlon qlat c < dist_sq_of rs qlon qlat j" by simp
      with e show False by simp
    qed
  qed
  with c show ?thesis unfolding rs_def by blast
qed

theorem lookup_naive_nearest_first_witness:
  "nv_n ex_naive = int (length (nv_rs ex_naive)) \<and> nv_rs ex_naive \<noteq> [] \<and>
   (\<exists>c<length (nv_rs ex_naive).
      lookup_naive ex_naive 10 55 = Inr (Some c) \<and>
      (\<forall>j<length (nv_rs ex_naive).
         dist_sq_of (nv_rs ex_naive) 10 55 c \<le> dist_sq_of (nv_rs ex_naive) 10 55 j) \<and>
      (\<forall>j<length (nv_rs ex_naive).
         dist_sq_of (nv_rs ex_naive) 10 55 j = dist_sq_of (nv_rs ex_naive) 10 55 c \<longrightarrow> c \<le> j) \<and>
      (\<forall>j<c. dist_sq_of (nv_rs ex_naive) 10 55 c < dist_sq_of (nv_rs ex_naive) 10 55 j)) \<and>
   lookup_naive ex_naive 10 55 = Inr (Some 0) \<and>
   map (dist_sq_of (nv_rs ex_naive) 10 55) [0, 1, 2] = [1, 4, 1] \<and>
   lookup_naive ex_naive 11 54 = Inr (Some 2)"
proof -
  have h1: "nv_n ex_naive = int (length (nv_rs ex_naive))"
    by (simp add: ex_naive_def ex_records_def)
  have h2: "nv_rs ex_naive \<noteq> []"
    by (simp add: ex_naive_def ex_records_def)
  have v: "lookup_naive ex_naive 10 55 = Inr (Some 0)"
    "lookup_naive ex_naive 11 54 = Inr (Some 2)"
    by code_simp+
  have d: "map (dist_sq_of (nv_rs ex_naive) 10 55) [0, 1, 2] = [1, 4, 1]"
    by (simp add: dist_sq_of_def ex_naive_def ex_records_def)
  from lookup_naive_nearest_first [OF h1 h2, of 10 55] h1 h2 v d
  show ?thesis by blast
qed

text \<open>
  Claim C8. \<^verbatim>\<open>lookup_naive\<close> returns \<^verbatim>\<open>NULL\<close> exactly when \<open>n = 0\<close>; for a non-empty
  record array it returns a pointer to one of the records. This holds whatever the
  arithmetic and the comparison of coordinates do.
\<close>

theorem lookup_naive_null_iff_empty:
  fixes data :: "'a::{plus,minus,times,ord} naive_data"
  assumes "nv_n data = int (length (nv_rs data))"
  shows "(lookup_naive data qlon qlat = Inr None \<longleftrightarrow> nv_n data = 0) \<and>
         (nv_n data \<noteq> 0 \<longrightarrow>
            (\<exists>c<length (nv_rs data). lookup_naive data qlon qlat = Inr (Some c)))"
proof (cases "nv_n data = 0")
  case True
  then show ?thesis by (simp add: lookup_naive_def)
next
  case False
  with assms have ne: "nv_rs data \<noteq> []" by auto
  then have pos: "0 < length (nv_rs data)" by simp
  have "\<exists>c<length (nv_rs data).
      lookup_naive_loop (nv_rs data) (nv_n data) qlon qlat 1 0
        (dist_sq_of (nv_rs data) qlon qlat 0) = Inr (Some c)"
    using assms pos by (intro lookup_naive_loop_returns) simp_all
  then have "\<exists>c<length (nv_rs data). lookup_naive data qlon qlat = Inr (Some c)"
    using False ne by (simp add: lookup_naive_def dist_sq_of_def Let_def)
  with False show ?thesis by auto
qed

theorem lookup_naive_null_iff_empty_witness:
  "nv_n ex_naive_empty = int (length (nv_rs ex_naive_empty)) \<and>
   nv_n ex_naive_empty = 0 \<and> lookup_naive ex_naive_empty 10 55 = Inr None \<and>
   nv_n ex_naive = int (length (nv_rs ex_naive)) \<and> nv_n ex_naive \<noteq> 0 \<and>
   lookup_naive ex_naive 10 55 \<noteq> Inr None \<and>
   (\<exists>c<length (nv_rs ex_naive). lookup_naive ex_naive 10 55 = Inr (Some c))"
proof -
  have e: "nv_n ex_naive_empty = int (length (nv_rs ex_naive_empty))" "nv_n ex_naive_empty = 0"
    by (simp_all add: ex_naive_empty_def)
  have h: "nv_n ex_naive = int (length (nv_rs ex_naive))" "nv_n ex_naive \<noteq> 0"
    by (simp_all add: ex_naive_def ex_records_def)
  from lookup_naive_null_iff_empty [OF e(1), of 10 55] e(2)
  have 1: "lookup_naive ex_naive_empty 10 55 = Inr None" by blast
  from lookup_naive_null_iff_empty [OF h(1), of 10 55] h(2)
  have 2: "lookup_naive ex_naive 10 55 \<noteq> Inr None"
    "\<exists>c<length (nv_rs ex_naive). lookup_naive ex_naive 10 55 = Inr (Some c)"
    by blast+
  from e h 1 2 show ?thesis by blast
qed

section \<open>Linear Scanner\<close>

lemma scan_records_None:
  "scan_records rs needle off = None \<longleftrightarrow> (\<forall>i<length rs. osm_id (rs ! i) \<noteq> needle)"
proof (induction rs arbitrary: off)
  case Nil
  then show ?case by simp
next
  case (Cons r rs)
  show ?case
    by (auto simp add: Cons.IH less_Suc_eq_0_disj)
qed

lemma scan_records_Some:
  "scan_records rs needle off = Some p \<longleftrightarrow>
   (\<exists>i<length rs. p = off + i \<and> osm_id (rs ! i) = needle \<and> (\<forall>j<i. osm_id (rs ! j) \<noteq> needle))"
proof (induction rs arbitrary: off)
  case Nil
  then show ?case by simp
next
  case (Cons r rs)
  show ?case
  proof (cases "osm_id r = needle")
    case True
    then show ?thesis by (auto simp add: less_Suc_eq_0_disj)
  next
    case False
    have "(\<exists>i<length rs. p = Suc off + i \<and> osm_id (rs ! i) = needle \<and> (\<forall>j<i. osm_id (rs ! j) \<noteq> needle))
      \<longleftrightarrow> (\<exists>i<length (r # rs). p = off + i \<and> osm_id ((r # rs) ! i) = needle \<and>
            (\<forall>j<i. osm_id ((r # rs) ! j) \<noteq> needle))" (is "?L \<longleftrightarrow> ?R")
    proof
      assume ?L
      then obtain i where i: "i < length rs" "p = Suc off + i" "osm_id (rs ! i) = needle"
        "\<forall>j<i. osm_id (rs ! j) \<noteq> needle" by blast
      with False have "Suc i < length (r # rs) \<and> p = off + Suc i \<and> osm_id ((r # rs) ! Suc i) = needle \<and>
        (\<forall>j<Suc i. osm_id ((r # rs) ! j) \<noteq> needle)"
        by (auto simp add: less_Suc_eq_0_disj)
      then show ?R by blast
    next
      assume ?R
      then obtain i where i: "i < length (r # rs)" "p = off + i" "osm_id ((r # rs) ! i) = needle"
        "\<forall>j<i. osm_id ((r # rs) ! j) \<noteq> needle" by blast
      with False obtain i' where i': "i = Suc i'" by (cases i) auto
      with i have "i' < length rs \<and> p = Suc off + i' \<and> osm_id (rs ! i') = needle \<and>
        (\<forall>j<i'. osm_id (rs ! j) \<noteq> needle)"
        by auto
      then show ?L by blast
    qed
    with False show ?thesis by (simp add: Cons.IH)
  qed
qed

text \<open>
  Claim C9. The Linear Scanner's lookup returns "not found" exactly when no record has
  the queried identifier, in particular for the empty sequence; and it returns a
  reference to position \<open>p\<close> exactly when the record at \<open>p\<close> has the identifier and no
  record before \<open>p\<close> has it: the first occurrence in store order, also when the
  identifier is repeated.
\<close>

theorem linear_scanner_first_match:
  "(lookup_linear_scanner data needle = None \<longleftrightarrow>
      (\<forall>i<length (ls_rs data). osm_id (ls_rs data ! i) \<noteq> needle)) \<and>
   (\<forall>p. lookup_linear_scanner data needle = Some p \<longleftrightarrow>
      p < length (ls_rs data) \<and> osm_id (ls_rs data ! p) = needle \<and>
      (\<forall>j<p. osm_id (ls_rs data ! j) \<noteq> needle)) \<and>
   (ls_rs data = [] \<longrightarrow> lookup_linear_scanner data needle = None)"
proof (intro conjI allI impI)
  show "lookup_linear_scanner data needle = None \<longleftrightarrow>
      (\<forall>i<length (ls_rs data). osm_id (ls_rs data ! i) \<noteq> needle)"
    unfolding lookup_linear_scanner_def by (rule scan_records_None)
next
  fix p
  show "lookup_linear_scanner data needle = Some p \<longleftrightarrow>
      p < length (ls_rs data) \<and> osm_id (ls_rs data ! p) = needle \<and>
      (\<forall>j<p. osm_id (ls_rs data ! j) \<noteq> needle)"
    unfolding lookup_linear_scanner_def scan_records_Some by auto
next
  assume "ls_rs data = []"
  then show "lookup_linear_scanner data needle = None"
    by (simp add: lookup_linear_scanner_def)
qed

theorem linear_scanner_first_match_witness:
  "lookup_linear_scanner ex_linear 45 = Some 0 \<and>
   osm_id (ls_rs ex_linear ! 0) = 45 \<and> osm_id (ls_rs ex_linear ! 2) = 45 \<and>
   lookup_linear_scanner ex_linear 1337 = Some 1 \<and>
   99999 \<notin> osm_id ` set (ls_rs ex_linear) \<and>
   lookup_linear_scanner ex_linear 99999 = None \<and>
   ls_rs ex_linear_empty = [] \<and> lookup_linear_scanner ex_linear_empty 45 = None"
proof -
  have ids: "osm_id (ls_rs ex_linear ! 0) = 45" "osm_id (ls_rs ex_linear ! 2) = 45"
    "osm_id (ls_rs ex_linear ! 1) = 1337" "osm_id (ls_rs ex_linear ! 0) \<noteq> 1337"
    "length (ls_rs ex_linear) = 3" "99999 \<notin> osm_id ` set (ls_rs ex_linear)"
    by (simp_all add: ex_linear_def ex_dup_records_def)
  have e: "ls_rs ex_linear_empty = []" by (simp add: ex_linear_empty_def)
  note t = linear_scanner_first_match
  have 1: "lookup_linear_scanner ex_linear 45 = Some 0"
    using t [of ex_linear 45, THEN conjunct2, THEN conjunct1, rule_format, of 0] ids by simp
  have 2: "lookup_linear_scanner ex_linear 1337 = Some 1"
    using t [of ex_linear 1337, THEN conjunct2, THEN conjunct1, rule_format, of 1] ids by simp
  have 3: "lookup_linear_scanner ex_linear 99999 = None"
    using t [of ex_linear 99999, THEN conjunct1] ids(5,6) by (auto simp add: image_iff)
  have 4: "lookup_linear_scanner ex_linear_empty 45 = None"
    using t [of ex_linear_empty 45] e by blast
  from ids e 1 2 3 4 show ?thesis by blast
qed

section \<open>The three identifier lookups agree\<close>

lemma scan_entries_map:
  "scan_entries (map (\<lambda>i. \<lparr>ir_osm_id = osm_id (rs ! i), ir_record = i\<rparr>) [off..<length rs]) needle =
   scan_records (drop off rs) needle off"
proof (induction "length rs - off" arbitrary: off)
  case 0
  then show ?case by simp
next
  case (Suc k)
  then have lt: "off < length rs" by simp
  have IH: "scan_entries (map (\<lambda>i. \<lparr>ir_osm_id = osm_id (rs ! i), ir_record = i\<rparr>) [Suc off..<length rs]) needle =
     scan_records (drop (Suc off) rs) needle (Suc off)"
    using Suc by (intro Suc(1)) simp
  from lt have "drop off rs = rs ! off # drop (Suc off) rs"
    by (simp add: Cons_nth_drop_Suc)
  with lt IH show ?case by (simp add: upt_conv_Cons)
qed

lemma lookup_compact_index_eq:
  assumes "build_compact_index oks h rs = (Some cmp, h')"
  shows "lookup_compact_index cmp needle = scan_records rs needle 0"
proof -
  from assms have "ci_entries cmp = map (\<lambda>i. \<lparr>ir_osm_id = osm_id (rs ! i), ir_record = i\<rparr>) [0..<length rs]"
    by (auto simp add: build_compact_index_def malloc_def split: if_splits)
  then show ?thesis
    using scan_entries_map [of rs 0 needle] by (simp add: lookup_compact_index_def)
qed

lemma lookup_linear_scanner_eq:
  assumes "build_linear_scanner ok h rs = (Some lin, h')"
  shows "lookup_linear_scanner lin needle = scan_records rs needle 0"
  using assms
  by (auto simp add: build_linear_scanner_def malloc_def lookup_linear_scanner_def split: if_splits)

text \<open>
  Claim C6. Over one record array without repeated identifiers, and for any query, the
  Linear Scanner, the Compact Index and the Sorted Index (built by \<^verbatim>\<open>mk_indexed\<close>, with
  any \<^verbatim>\<open>qsort\<close> that keeps its contract) either all return references to records with the
  same identifier, in fact to the same record, or all report "not found".
\<close>

theorem lookups_agree:
  assumes "distinct (map osm_id rs)"
    and "build_linear_scanner ok h1 rs = (Some lin, h1')"
    and "build_compact_index oks2 h2 rs = (Some cmp, h2')"
    and "mk_indexed qsort oks3 h3 rs (int (length rs)) = Inr (Some srt, h3')"
    and "int (length rs) \<le> INT_MAX"
    and "qsort_contract qsort compare_index_records (index_entries rs)"
  shows "(\<exists>i j l. lookup_linear_scanner lin needle = Some i \<and>
            lookup_compact_index cmp needle = Some j \<and>
            lookup_indexed srt needle = Inr (Some l) \<and>
            i < length rs \<and> j < length rs \<and> l < length rs \<and>
            osm_id (rs ! i) = osm_id (rs ! j) \<and> osm_id (rs ! j) = osm_id (rs ! l) \<and>
            i = j \<and> j = l) \<or>
         (lookup_linear_scanner lin needle = None \<and>
          lookup_compact_index cmp needle = None \<and>
          lookup_indexed srt needle = Inr None)"
proof -
  note lin = lookup_linear_scanner_eq [OF assms(2), of needle]
  note cmp = lookup_compact_index_eq [OF assms(3), of needle]
  note built = mk_indexed_built [OF assms(4)]
  have "sorted (map (\<lambda>e. sint (ir_osm_id e)) (idx_irs srt))"
    unfolding built(1) by (rule qsort_contract_sorted [OF assms(6)])
  moreover have "set (idx_irs srt) = set (index_entries rs)"
    unfolding built(1) by (rule qsort_contract_perm(1) [OF assms(6)])
  moreover have "length (idx_irs srt) = length rs"
    unfolding built(1) using qsort_contract_perm(2) [OF assms(6)] by (simp add: index_entries_def)
  ultimately have srt:
    "(\<exists>i<length rs. osm_id (rs ! i) = needle) \<longrightarrow>
       (\<exists>j<length rs. lookup_indexed srt needle = Inr (Some j) \<and> osm_id (rs ! j) = needle)"
    "(\<forall>i<length rs. osm_id (rs ! i) \<noteq> needle) \<longrightarrow> lookup_indexed srt needle = Inr None"
    using lookup_indexed_on_sorted_entries [OF _ _ _ refl built(2) assms(5), of needle]
    by blast+
  show ?thesis
  proof (cases "scan_records rs needle 0")
    case None
    then have "\<forall>i<length rs. osm_id (rs ! i) \<noteq> needle"
      by (simp add: scan_records_None)
    with srt have "lookup_indexed srt needle = Inr None" by blast
    with None lin cmp show ?thesis by simp
  next
    case (Some i)
    then have i: "i < length rs" "osm_id (rs ! i) = needle"
      by (auto simp add: scan_records_Some)
    with srt obtain l where l: "l < length rs" "lookup_indexed srt needle = Inr (Some l)"
      "osm_id (rs ! l) = needle" by blast
    from i l assms(1) have "i = l"
      by (metis distinct_conv_nth length_map nth_map)
    with Some lin cmp i l show ?thesis by simp
  qed
qed

theorem lookups_agree_witness:
  "distinct (map osm_id ex_records) \<and>
   build_linear_scanner True [] ex_records = (Some ex_scanner, [1]) \<and>
   build_compact_index (True, True) [] ex_records = (Some ex_compact, [2, 1]) \<and>
   mk_indexed insertion_qsort (True, True) [] ex_records (int (length ex_records)) =
     Inr (Some ex_index, [2, 1]) \<and>
   int (length ex_records) \<le> INT_MAX \<and>
   qsort_contract insertion_qsort compare_index_records (index_entries ex_records) \<and>
   lookup_linear_scanner ex_scanner 45 = Some 1 \<and>
   lookup_compact_index ex_compact 45 = Some 1 \<and>
   lookup_indexed ex_index 45 = Inr (Some 1) \<and>
   lookup_linear_scanner ex_scanner 99999 = None \<and>
   lookup_compact_index ex_compact 99999 = None \<and>
   lookup_indexed ex_index 99999 = Inr None"
proof -
  have len: "length ex_records = 3" by (simp add: ex_records_def)
  have d: "distinct (map osm_id ex_records)" by (simp add: ex_records_def)
  have l: "build_linear_scanner True [] ex_records = (Some ex_scanner, [1])" by code_simp
  have c: "build_compact_index (True, True) [] ex_records = (Some ex_compact, [2, 1])"
    by code_simp
  have b: "mk_indexed insertion_qsort (True, True) [] ex_records (int (length ex_records)) =
     Inr (Some ex_index, [2, 1])"
    unfolding len using ex_build by simp
  have m: "int (length ex_records) \<le> INT_MAX" by (simp add: len INT_MAX_def)
  have v: "lookup_linear_scanner ex_scanner 45 = Some 1"
    "lookup_linear_scanner ex_scanner 99999 = None"
    by code_simp+
  from lookups_agree [OF d l c b m ex_contract, of 45] v(1)
  have 1: "lookup_compact_index ex_compact 45 = Some 1 \<and> lookup_indexed ex_index 45 = Inr (Some 1)"
    by auto
  from lookups_agree [OF d l c b m ex_contract, of 99999] v(2)
  have 2: "lookup_compact_index ex_compact 99999 = None \<and> lookup_indexed ex_index 99999 = Inr None"
    by auto
  from d l c b m ex_contract v 1 2 show ?thesis by blast
qed

section \<open>The empty record set\<close>




end
